theory Spec2Isabelle
  imports Complex_Main "HOL-Library.Log_Nat"
begin

section \<open>Directory tree report (tree\_html.py)\<close>

text \<open>
  A shallow embedding of \<^verbatim>\<open>tree_html.py\<close>: the size formatter \<^verbatim>\<open>human_size\<close>,
  the tree model \<^verbatim>\<open>Node\<close> with its recursive constructor \<^verbatim>\<open>Node.build\<close>, and the
  renderer \<^verbatim>\<open>Node.to_html\<close>.

  Python strings are modelled as \<open>string\<close>, read as the UTF-8 bytes of the text (the
  program writes its output with \<^verbatim>\<open>encoding="utf-8"\<close>). The only characters the
  program inspects are ASCII, and in UTF-8 an ASCII byte never occurs inside the
  encoding of another code point.
\<close>

subsection \<open>Python values used by the program\<close>

text \<open>The exceptions that can leave the modelled functions.\<close>

datatype py_error = OverflowError | ValueError | OSError

text \<open>
  \<^verbatim>\<open>str(n)\<close> / \<^verbatim>\<open>f"{n}"\<close> for an int: decimal digits, with a minus sign for a
  negative number.
\<close>

definition digit_char :: "nat \<Rightarrow> char" where
  "digit_char d = ''0123456789'' ! d"

fun str_nat :: "nat \<Rightarrow> string" where
  "str_nat n = (if n < 10 then [digit_char n] else str_nat (n div 10) @ [digit_char (n mod 10)])"

definition str_int :: "int \<Rightarrow> string" where
  "str_int i = (if i < 0 then CHR ''-'' # str_nat (nat (- i)) else str_nat (nat i))"

text \<open>
  A Python float is an IEEE-754 double. Every double is a rational number, and the
  model keeps that rational. The program makes floats in one way only: the int
  \<^verbatim>\<open>num_bytes\<close> is converted to a double by \<^verbatim>\<open>num_bytes /= 1024.0\<close>. The conversion
  rounds to the nearest double, ties to the even mantissa (53 bits), and raises
  \<^verbatim>\<open>OverflowError\<close> when the rounded value does not fit (\<open>2 ^ 1024\<close> and above).
\<close>

definition round_double :: "int \<Rightarrow> int" where
  "round_double m =
     (let e = nat (bitlen m - 53) in
      if e = 0 then m
      else
        let q = m div 2 ^ e; r = m mod 2 ^ e; h = 2 ^ (e - 1) in
        (if h < r \<or> (r = h \<and> odd q) then q + 1 else q) * 2 ^ e)"

definition int_to_float :: "int \<Rightarrow> py_error + rat" where
  "int_to_float i =
     (let v = (if i < 0 then - round_double (- i) else round_double i) in
      if 2 ^ 1024 \<le> \<bar>v\<bar> then Inl OverflowError else Inr (of_int v))"

text \<open>
  \<^verbatim>\<open>f"{x:.1f}"\<close> for a float: the exact value of the double, correctly rounded to one
  decimal place, ties to the even digit.
\<close>

definition round_half_even :: "rat \<Rightarrow> int" where
  "round_half_even t =
     (let f = \<lfloor>t\<rfloor>; r = t - of_int f in
      if 1 / 2 < r \<or> (r = 1 / 2 \<and> odd f) then f + 1 else f)"

definition format_1f :: "rat \<Rightarrow> string" where
  "format_1f x =
     (let tenths = round_half_even (\<bar>x\<bar> * 10) in
      (if x < 0 then ''-'' else '''') @
      str_int (tenths div 10) @ ''.'' @ str_int (tenths mod 10))"

subsection \<open>Utility helpers\<close>

text \<open>
  \<^verbatim>\<open>human_size\<close>. On the first pass of the loop the unit is \<^verbatim>\<open>"bytes"\<close> and
  \<^verbatim>\<open>num_bytes\<close> is still the int argument: it is compared with 1024 exactly and printed
  as an int. The division \<^verbatim>\<open>num_bytes /= 1024.0\<close> then makes it a float, and the later
  passes run over the remaining units; dividing a double of at least 1024 by 1024 is
  exact. \<open>human_size_loop\<close> is the loop over the units that follow \<^verbatim>\<open>"bytes"\<close>, with
  the statement after the loop as its last case.
\<close>

fun human_size_loop :: "rat \<Rightarrow> string list \<Rightarrow> string" where
  "human_size_loop num_bytes [] = format_1f num_bytes @ '' PiB''"
| "human_size_loop num_bytes (unit # units) =
     (if num_bytes < 1024 \<or> unit = ''TiB''
      then format_1f num_bytes @ '' '' @ unit
      else human_size_loop (num_bytes / 1024) units)"

definition human_size :: "int \<Rightarrow> py_error + string" where
  "human_size num_bytes =
     (if num_bytes = 1 then Inr ''1 byte''
      else if num_bytes < 1024 then Inr (str_int num_bytes @ '' '' @ ''bytes'')
      else
        case int_to_float num_bytes of
          Inl e \<Rightarrow> Inl e
        | Inr x \<Rightarrow> Inr (human_size_loop (x / 1024) [''KiB'', ''MiB'', ''GiB'', ''TiB'']))"

text \<open>
  \<^verbatim>\<open>ts_to_str\<close> is \<^verbatim>\<open>datetime.fromtimestamp(ts).strftime(DT_FMT)\<close>: it depends on the
  local time zone of the machine and raises for a timestamp the platform cannot
  convert. It is a parameter \<open>ts_to_str\<close> of the renderer below.
\<close>

subsection \<open>The file system\<close>

text \<open>
  A path is its string (\<^verbatim>\<open>str(path)\<close>, POSIX flavour); two \<^verbatim>\<open>Path\<close> objects are equal
  when their strings are. \<^verbatim>\<open>path.name\<close> is the final component: what follows the last
  separator, empty for a root.
\<close>

type_synonym path = string

definition path_name :: "path \<Rightarrow> string" where
  "path_name p = rev (takeWhile (\<lambda>c. c \<noteq> CHR ''/'') (rev p))"

text \<open>
  \<^verbatim>\<open>os.stat_result\<close>, the fields the program reads; \<open>st_isdir\<close> is
  \<^verbatim>\<open>S_ISDIR(st_mode)\<close>. Timestamps are floats, kept as the rationals they denote.
\<close>

record stat_result =
  st_isdir :: bool
  st_size :: int
  st_ctime :: rat
  st_mtime :: rat

text \<open>
  The file system is read, never written, and is taken as it stands during the walk:
  \<open>stat\<close> is \<^verbatim>\<open>path.stat()\<close> and \<open>iterdir\<close> is \<^verbatim>\<open>list(path.iterdir())\<close>, \<open>None\<close> when
  the call raises \<^verbatim>\<open>OSError\<close>. The diagnostics printed to \<^verbatim>\<open>sys.stderr\<close> are not
  part of the returned tree and are left out.
\<close>

record filesystem =
  stat :: "path \<Rightarrow> stat_result option"
  iterdir :: "path \<Rightarrow> path list option"

text \<open>\<^verbatim>\<open>path.is_dir()\<close> stats the path itself and answers False when that fails.\<close>

definition is_dir_path :: "filesystem \<Rightarrow> path \<Rightarrow> bool" where
  "is_dir_path fs p = (case stat fs p of None \<Rightarrow> False | Some st \<Rightarrow> st_isdir st)"

text \<open>
  The listing with its handler: \<^verbatim>\<open>raw_entries = list(path.iterdir())\<close>, and
  \<^verbatim>\<open>raw_entries = []\<close> when that raises.
\<close>

definition list_dir :: "filesystem \<Rightarrow> path \<Rightarrow> path list" where
  "list_dir fs p = (case iterdir fs p of Some es \<Rightarrow> es | None \<Rightarrow> [])"

subsection \<open>Tree model\<close>

datatype node =
  Node (path: path) (name: string) (is_dir: bool) (node_size: int)
       (ctime: rat) (mtime: rat) (children: "node list")

text \<open>\<^verbatim>\<open>Node.__init__\<close>: \<^verbatim>\<open>path.name or str(path)\<close>, and \<^verbatim>\<open>children or []\<close>.\<close>

definition init_node ::
  "path \<Rightarrow> bool \<Rightarrow> int \<Rightarrow> rat \<Rightarrow> rat \<Rightarrow> node list option \<Rightarrow> node" where
  "init_node p isdir sz ct mt chs =
     Node p (if path_name p \<noteq> [] then path_name p else p) isdir sz ct mt
          (case chs of None \<Rightarrow> [] | Some cs \<Rightarrow> cs)"

text \<open>
  The loop that fills \<^verbatim>\<open>stat_map\<close>: an entry whose \<^verbatim>\<open>stat()\<close> raises is skipped.
\<close>

fun stat_entries ::
  "filesystem \<Rightarrow> path list \<Rightarrow> (path \<rightharpoonup> stat_result) \<Rightarrow> (path \<rightharpoonup> stat_result)" where
  "stat_entries fs [] stat_map = stat_map"
| "stat_entries fs (child # rest) stat_map =
     (case stat fs child of
        Some st \<Rightarrow> stat_entries fs rest (stat_map(child \<mapsto> st))
      | None \<Rightarrow> stat_entries fs rest stat_map)"

text \<open>
  \<^verbatim>\<open>entries.sort(key=..., reverse=True)\<close>: a stable sort run on the reversed list and
  reversed again, so that the order is descending and equal keys keep their order.
\<close>

definition sort_reverse :: "('a \<Rightarrow> rat) \<Rightarrow> 'a list \<Rightarrow> 'a list" where
  "sort_reverse key xs = rev (sort_key key (rev xs))"

text \<open>The list comprehension \<^verbatim>\<open>[cls.build(child) for child in entries]\<close>.\<close>

fun build_all :: "(path \<Rightarrow> node option) \<Rightarrow> path list \<Rightarrow> node list option" where
  "build_all b [] = Some []"
| "build_all b (child # rest) =
     (case b child of
        None \<Rightarrow> None
      | Some ch \<Rightarrow> (case build_all b rest of None \<Rightarrow> None | Some chs \<Rightarrow> Some (ch # chs)))"

text \<open>
  \<^verbatim>\<open>Node.build\<close>. The recursion follows the file system, which may be unboundedly deep
  (a directory reached again through a symbolic link), so the model carries the depth
  of recursion it may still use: \<open>None\<close> is a walk that needs more.
\<close>

fun build :: "filesystem \<Rightarrow> nat \<Rightarrow> path \<Rightarrow> node option" where
  "build fs 0 p = None"
| "build fs (Suc depth) p =
     (case stat fs p of
        None \<Rightarrow> Some (init_node p False 0 0 0 None)
      | Some st \<Rightarrow>
          if is_dir_path fs p then
            let raw_entries = list_dir fs p;
                stat_map = stat_entries fs raw_entries Map.empty;
                entries = filter (\<lambda>q. stat_map q \<noteq> None) raw_entries;
                entries = sort_reverse (\<lambda>q. st_mtime (the (stat_map q))) entries
            in case build_all (build fs depth) entries of
                 None \<Rightarrow> None
               | Some chs \<Rightarrow>
                   Some (init_node p True (sum_list (map node_size chs))
                           (st_ctime st) (st_mtime st) (Some chs))
          else Some (init_node p False (st_size st) (st_ctime st) (st_mtime st) None))"

text \<open>
  What the properties of a built tree are stated with: all the nodes of a tree, the
  root first, and the total size of the files (the non-directory nodes) below a node.
\<close>

fun nodes :: "node \<Rightarrow> node list" where
  "nodes (Node p nm isdir sz ct mt chs) =
     Node p nm isdir sz ct mt chs # concat (map nodes chs)"

fun files_size :: "node \<Rightarrow> int" where
  "files_size (Node p nm isdir sz ct mt chs) =
     (if isdir then sum_list (map files_size chs) else sz)"

text \<open>
  The modification time that the parent reads for an entry, and the entries of a
  directory that the parent could stat, in the order of the listing.
\<close>

definition entry_mtime :: "filesystem \<Rightarrow> path \<Rightarrow> rat" where
  "entry_mtime fs q = st_mtime (the (stat fs q))"

definition stat_ok_entries :: "filesystem \<Rightarrow> path \<Rightarrow> path list" where
  "stat_ok_entries fs p = filter (\<lambda>q. stat fs q \<noteq> None) (list_dir fs p)"

text \<open>
  A small file system for concrete runs: the directory \<^verbatim>\<open>/R\<close> lists a file
  \<^verbatim>\<open>a.txt\<close>, an entry \<^verbatim>\<open>dead\<close> that cannot be stat'ed, a subdirectory \<^verbatim>\<open>B\<close> holding
  \<^verbatim>\<open>b.bin\<close>, and a file \<^verbatim>\<open>c.txt\<close> as old as \<^verbatim>\<open>a.txt\<close>.
\<close>

definition fs_example :: filesystem where
  "fs_example =
     \<lparr> stat = (\<lambda>p.
         if p = ''/R'' then
           Some \<lparr>st_isdir = True, st_size = 4096, st_ctime = 1, st_mtime = 5\<rparr>
         else if p = ''/R/a.txt'' then
           Some \<lparr>st_isdir = False, st_size = 500, st_ctime = 2, st_mtime = 10\<rparr>
         else if p = ''/R/B'' then
           Some \<lparr>st_isdir = True, st_size = 4096, st_ctime = 3, st_mtime = 20\<rparr>
         else if p = ''/R/c.txt'' then
           Some \<lparr>st_isdir = False, st_size = 7, st_ctime = 4, st_mtime = 10\<rparr>
         else if p = ''/R/B/b.bin'' then
           Some \<lparr>st_isdir = False, st_size = 2048, st_ctime = 5, st_mtime = 30\<rparr>
         else None),
       iterdir = (\<lambda>p.
         if p = ''/R'' then Some [''/R/a.txt'', ''/R/dead'', ''/R/B'', ''/R/c.txt'']
         else if p = ''/R/B'' then Some [''/R/B/b.bin'']
         else None) \<rparr>"

definition subdir_example :: node where
  "subdir_example =
     Node ''/R/B'' ''B'' True 2048 3 20 [Node ''/R/B/b.bin'' ''b.bin'' False 2048 5 30 []]"

definition tree_example :: node where
  "tree_example =
     Node ''/R'' ''R'' True 2555 1 5
       [subdir_example,
        Node ''/R/a.txt'' ''a.txt'' False 500 2 10 [],
        Node ''/R/c.txt'' ''c.txt'' False 7 4 10 []]"

text \<open>
  The same file system with another \<^verbatim>\<open>st_size\<close> reported for every directory.
\<close>

definition with_dir_size :: "int \<Rightarrow> filesystem \<Rightarrow> filesystem" where
  "with_dir_size z fs =
     fs\<lparr>stat := (\<lambda>q. case stat fs q of
                        None \<Rightarrow> None
                      | Some st \<Rightarrow> Some (if st_isdir st then st\<lparr>st_size := z\<rparr> else st))\<rparr>"

subsection \<open>Rendering\<close>

text \<open>
  \<^verbatim>\<open>html.escape(s, quote=False)\<close> of the standard library: three replacements, the
  ampersand first.
\<close>

definition replace_char :: "char \<Rightarrow> string \<Rightarrow> string \<Rightarrow> string" where
  "replace_char c new s = concat (map (\<lambda>x. if x = c then new else [x]) s)"

definition html_escape :: "string \<Rightarrow> string" where
  "html_escape s =
     replace_char CHR ''>'' ''&gt;'' (replace_char CHR ''<'' ''&lt;'' (replace_char CHR ''&'' ''&amp;'' s))"

text \<open>The two glyphs, U+1F4C1 and U+1F4C4, in UTF-8, and the line feed.\<close>

definition folder_glyph :: string where
  "folder_glyph = [CHR 0xF0, CHR 0x9F, CHR 0x93, CHR 0x81]"

definition file_glyph :: string where
  "file_glyph = [CHR 0xF0, CHR 0x9F, CHR 0x93, CHR 0x84]"

definition nl :: string where
  "nl = [CHR 0x0A]"

text \<open>\<^verbatim>\<open>"".join(...)\<close> over the children's fragments: the first exception leaves.\<close>

fun join_fragments :: "(py_error + string) list \<Rightarrow> py_error + string" where
  "join_fragments [] = Inr []"
| "join_fragments (Inl e # rest) = Inl e"
| "join_fragments (Inr s # rest) =
     (case join_fragments rest of Inl e \<Rightarrow> Inl e | Inr t \<Rightarrow> Inr (s @ t))"

definition pad_of :: "int \<Rightarrow> string" where
  "pad_of indent = concat (replicate (nat indent) ''  '')"

definition header_of :: "string \<Rightarrow> string \<Rightarrow> string \<Rightarrow> string \<Rightarrow> string" where
  "header_of pad esc_name size_h modified =
     pad @ ''<details open>'' @ nl @
     pad @ ''  <summary>'' @ folder_glyph @ '' <strong>'' @ esc_name @ ''/</strong>'' @
     '' ('' @ size_h @ '', modified '' @ modified @ '')</summary>'' @ nl @
     pad @ ''  <ul>'' @ nl"

definition footer_of :: "string \<Rightarrow> string" where
  "footer_of pad = pad @ ''  </ul>'' @ nl @ pad @ ''</details>'' @ nl"

definition leaf_of :: "string \<Rightarrow> string \<Rightarrow> string \<Rightarrow> string \<Rightarrow> string" where
  "leaf_of pad esc_name size_h modified =
     pad @ ''<li>'' @ file_glyph @ '' '' @ esc_name @ '' '' @
     ''<small>('' @ size_h @ '', modified '' @ modified @ '')</small></li>'' @ nl"

text \<open>
  \<^verbatim>\<open>Node.to_html\<close>. The four local values are computed in the source's order, so the
  first of them that raises decides the exception.
\<close>

fun to_html :: "(rat \<Rightarrow> py_error + string) \<Rightarrow> node \<Rightarrow> int \<Rightarrow> py_error + string" where
  "to_html ts_to_str (Node p nm isdir sz ct mt chs) indent =
     (let esc_name = html_escape nm in
      case ts_to_str ct of
        Inl e \<Rightarrow> Inl e
      | Inr created \<Rightarrow>
      case ts_to_str mt of
        Inl e \<Rightarrow> Inl e
      | Inr modified \<Rightarrow>
      case human_size sz of
        Inl e \<Rightarrow> Inl e
      | Inr size_h \<Rightarrow>
      let pad = pad_of indent in
      if isdir then
        case join_fragments (map (\<lambda>child. to_html ts_to_str child (indent + 2)) chs) of
          Inl e \<Rightarrow> Inl e
        | Inr body \<Rightarrow> Inr (header_of pad esc_name size_h modified @ body @ footer_of pad)
      else Inr (leaf_of pad esc_name size_h modified))"

text \<open>What the three replacements do to one character.\<close>

definition escape_char :: "char \<Rightarrow> string" where
  "escape_char c =
     (if c = CHR ''&'' then ''&amp;'' else if c = CHR ''<'' then ''&lt;''
      else if c = CHR ''>'' then ''&gt;'' else [c])"

text \<open>Nodes and a timestamp format for concrete runs of the renderer.\<close>

definition ts_example :: "rat \<Rightarrow> py_error + string" where
  "ts_example t = Inr (''T'' @ str_int \<lfloor>t\<rfloor>)"

definition file_example :: node where
  "file_example = Node ''/R/a<b&c.txt'' ''a<b&c.txt'' False 500 1 10 []"

definition dir_example :: node where
  "dir_example = Node ''/R'' ''R'' True 500 1 5 [file_example]"

definition quoted_example :: node where
  "quoted_example =
     Node (''/R/it'' @ [CHR 0x27] @ ''s'') (''it'' @ [CHR 0x27] @ ''s'') False 500 1 10 []"

section \<open>The size formatter\<close>

declare str_nat.simps [simp del]

subsection \<open>Evaluating the number formats\<close>

lemma round_half_even_of_int: "round_half_even (of_int a) = a"
  by (simp add: round_half_even_def)

lemma round_half_even_divide:
  assumes "0 < b"
  shows "round_half_even (of_int a / of_int b) =
    (if b < 2 * (a mod b) \<or> (2 * (a mod b) = b \<and> odd (a div b)) then a div b + 1 else a div b)"
proof -
  have fl: "\<lfloor>(of_int a / of_int b :: rat)\<rfloor> = a div b"
    by (rule floor_divide_of_int_eq)
  have "(of_int a :: rat) = of_int (a div b) * of_int b + of_int (a mod b)"
    by (metis div_mult_mod_eq of_int_add of_int_mult)
  then have fr: "(of_int a / of_int b :: rat) - of_int (a div b) = of_int (a mod b) / of_int b"
    using assms by (simp add: field_simps)
  have c1: "(1 / 2 < (of_int (a mod b) / of_int b :: rat)) = (b < 2 * (a mod b))"
  proof -
    have "(1 / 2 < (of_int (a mod b) / of_int b :: rat)) =
          ((of_int b :: rat) < of_int (2 * (a mod b)))"
      using assms by (simp add: field_simps)
    then show ?thesis by (simp only: of_int_less_iff)
  qed
  have c2: "((of_int (a mod b) / of_int b :: rat) = 1 / 2) = (2 * (a mod b) = b)"
  proof -
    have "((of_int (a mod b) / of_int b :: rat) = 1 / 2) =
          ((of_int (2 * (a mod b)) :: rat) = of_int b)"
      using assms by (auto simp add: field_simps)
    then show ?thesis by (simp only: of_int_eq_iff)
  qed
  show ?thesis
    unfolding round_half_even_def Let_def fl fr c1 c2 ..
qed

lemma round_half_even_numeral: "round_half_even (numeral a) = numeral a"
  using round_half_even_of_int [of "numeral a"] by simp

lemma round_half_even_numeral_divide:
  "round_half_even (numeral a / numeral b) =
    (if (numeral b :: int) < 2 * (numeral a mod numeral b) \<or>
        (2 * (numeral a mod numeral b) = (numeral b :: int) \<and> odd (numeral a div numeral b :: int))
     then numeral a div numeral b + 1 else numeral a div numeral b)"
proof -
  have "(0::int) < numeral b" by simp
  from round_half_even_divide [OF this, of "numeral a"] show ?thesis
    by (simp only: of_int_numeral)
qed

lemmas eval_fmt = format_1f_def round_half_even_numeral round_half_even_numeral_divide
  str_int_def str_nat.simps digit_char_def

subsection \<open>The conversion of an int to a double\<close>

text \<open>Below \<open>2 ^ 53\<close> every int is a double, and the conversion is exact.\<close>

lemma round_double_small: "m < 2 ^ 53 \<Longrightarrow> round_double m = m"
proof -
  assume "m < 2 ^ 53"
  then have "bitlen m \<le> 53"
    by (simp add: bitlen_le_iff_power)
  then show ?thesis by (simp add: round_double_def)
qed

lemma int_to_float_small: "0 \<le> i \<Longrightarrow> i < 2 ^ 53 \<Longrightarrow> int_to_float i = Inr (of_int i)"
  by (simp add: int_to_float_def round_double_small)

text \<open>From \<open>2 ^ 53\<close> on the rounded value stays at or above \<open>2 ^ 53\<close>.\<close>

lemma round_double_large:
  assumes "2 ^ 53 \<le> m"
  shows "2 ^ 53 \<le> round_double m"
proof -
  have pos: "0 < m" using assms by (smt (verit) zero_less_power)
  have "\<not> m < 2 ^ 53" using assms by simp
  then have "\<not> bitlen m \<le> 53"
    by (simp add: bitlen_le_iff_power)
  then have e1: "1 \<le> nat (bitlen m - 53)" by simp
  define e where "e = nat (bitlen m - 53)"
  have nb: "nat (bitlen m - 1) = 52 + e"
    using e1 by (simp add: e_def)
  have "(2::int) ^ (52 + e) \<le> m"
    using bitlen_bounds [OF pos] nb by simp
  then have "(2::int) ^ (52 + e) div 2 ^ e \<le> m div 2 ^ e"
    by (rule zdiv_mono1) simp
  then have q: "(2::int) ^ 52 \<le> m div 2 ^ e"
    by (simp add: power_add)
  have "(2::int) ^ 53 \<le> 2 ^ 52 * 2 ^ e"
    using e1 unfolding e_def [symmetric]
    by (cases e) simp_all
  also have "\<dots> \<le> (m div 2 ^ e) * 2 ^ e"
    using q by (simp add: mult_right_mono)
  also have "\<dots> \<le> round_double m"
    using e1 unfolding e_def [symmetric] round_double_def Let_def
    by (simp add: mult_right_mono)
  finally show ?thesis .
qed

lemma round_double_ge:
  assumes "t \<le> m" and "t \<le> 2 ^ 53"
  shows "t \<le> round_double m"
proof (cases "m < 2 ^ 53")
  case True
  then show ?thesis using assms by (simp add: round_double_small)
next
  case False
  then have "2 ^ 53 \<le> m" by simp
  then have "2 ^ 53 \<le> round_double m" by (rule round_double_large)
  with assms show ?thesis by linarith
qed

lemma int_to_float_ge:
  assumes "int_to_float n = Inr x" and "0 \<le> n" and "t \<le> n" and "t \<le> 2 ^ 53"
  shows "of_int t \<le> x"
proof -
  from assms(1,2) have "x = of_int (round_double n)"
    by (simp add: int_to_float_def Let_def split: if_splits)
  moreover have "t \<le> round_double n" using assms(3,4) by (rule round_double_ge)
  ultimately show ?thesis by simp
qed

subsection \<open>The loop, unit by unit\<close>

lemma human_size_loop_units:
  "human_size_loop y [''KiB'', ''MiB'', ''GiB'', ''TiB''] =
     (if y * 1024 < 1024 ^ 2 then format_1f y @ '' KiB''
      else if y * 1024 < 1024 ^ 3 then format_1f (y / 1024) @ '' MiB''
      else if y * 1024 < 1024 ^ 4 then format_1f (y / 1024 ^ 2) @ '' GiB''
      else format_1f (y / 1024 ^ 3) @ '' TiB'')"
  by simp

lemma human_size_cases:
  "human_size n =
    (if n = 1 then Inr ''1 byte''
     else if n < 1024 then Inr (str_int n @ '' bytes'')
     else case int_to_float n of
            Inl e \<Rightarrow> Inl e
          | Inr x \<Rightarrow> Inr
              (if x < 1024 ^ 2 then format_1f (x / 1024) @ '' KiB''
               else if x < 1024 ^ 3 then format_1f (x / 1024 ^ 2) @ '' MiB''
               else if x < 1024 ^ 4 then format_1f (x / 1024 ^ 3) @ '' GiB''
               else format_1f (x / 1024 ^ 4) @ '' TiB''))"
  by (simp add: human_size_def human_size_loop_units split: sum.split)

lemma human_size_units:
  assumes "human_size n = Inr s"
  shows "\<exists>b u. s = b @ u \<and> u \<in> {''1 byte'', '' bytes'', '' KiB'', '' MiB'', '' GiB'', '' TiB''}"
  using assms unfolding human_size_cases [of n]
  by (auto split: if_splits sum.splits)

text \<open>
  C5. The size formatter returns exactly "1 byte" for 1, "0 bytes" for 0, "1023 bytes"
  for 1023, "1.0 KiB" for 1024, "1.5 KiB" for 1536 and "1.0 MiB" for 1048576.
\<close>

theorem human_size_examples:
  "human_size 1 = Inr ''1 byte'' \<and>
   human_size 0 = Inr ''0 bytes'' \<and>
   human_size 1023 = Inr ''1023 bytes'' \<and>
   human_size 1024 = Inr ''1.0 KiB'' \<and>
   human_size 1536 = Inr ''1.5 KiB'' \<and>
   human_size 1048576 = Inr ''1.0 MiB''"
  by (simp add: human_size_def int_to_float_small eval_fmt)

text \<open>
  C6, as the claim states it, fails: 1048575 bytes are 1023.999 KiB, below the
  boundary of 1024, and are displayed as "1024.0 KiB" although MiB is available.
\<close>

theorem human_size_displays_1024_KiB: "human_size 1048575 = Inr ''1024.0 KiB''"
  by (simp add: human_size_def int_to_float_small eval_fmt)

text \<open>
  C6, amended. Below \<open>2 ^ 50\<close> bytes (1 PiB) the boundary is decided on the running
  value before it is rounded to one decimal: a result in KiB, MiB, GiB or TiB carries
  a running value \<open>v\<close>, the byte count divided by 1024 once per unit, with
  \<open>1 \<le> v < 1024\<close>. The text displayed is \<open>v\<close> rounded to one decimal, which can read
  1024.0.
\<close>

theorem human_size_unit_boundaries:
  assumes "human_size n = Inr s" and "n < 2 ^ 50"
  shows "(n = 1 \<and> s = ''1 byte'') \<or>
         (n < 1024 \<and> s = str_int n @ '' bytes'') \<or>
         (\<exists>v u. s = format_1f v @ '' '' @ u \<and> 1 \<le> v \<and> v < 1024 \<and>
            ((u = ''KiB'' \<and> v = of_int n / 1024) \<or>
             (u = ''MiB'' \<and> v = of_int n / 1024 ^ 2) \<or>
             (u = ''GiB'' \<and> v = of_int n / 1024 ^ 3) \<or>
             (u = ''TiB'' \<and> v = of_int n / 1024 ^ 4)))"
proof (cases "n = 1 \<or> n < 1024")
  case True
  with assms(1) show ?thesis
    unfolding human_size_cases [of n] by (auto split: if_splits)
next
  case False
  then have n: "n \<noteq> 1" "\<not> n < 1024" "0 \<le> n" by simp_all
  define x :: rat where "x = of_int n"
  have "n < 2 ^ 53" using assms(2) by simp
  with n(3) have f: "int_to_float n = Inr x"
    unfolding x_def by (rule int_to_float_small)
  have lo: "1024 \<le> x" using n(2) unfolding x_def by simp
  have "x < of_int (2 ^ 50)" using assms(2) unfolding x_def by (simp only: of_int_less_iff)
  then have hi: "x < 1024 ^ 5" by simp
  from assms(1) n f have s:
    "s = (if x < 1024 ^ 2 then format_1f (x / 1024) @ '' KiB''
          else if x < 1024 ^ 3 then format_1f (x / 1024 ^ 2) @ '' MiB''
          else if x < 1024 ^ 4 then format_1f (x / 1024 ^ 3) @ '' GiB''
          else format_1f (x / 1024 ^ 4) @ '' TiB'')"
    unfolding human_size_cases [of n] by simp
  consider "x < 1024 ^ 2" | "1024 ^ 2 \<le> x" "x < 1024 ^ 3"
    | "1024 ^ 3 \<le> x" "x < 1024 ^ 4" | "1024 ^ 4 \<le> x"
    by linarith
  then have "\<exists>v u. s = format_1f v @ '' '' @ u \<and> 1 \<le> v \<and> v < 1024 \<and>
            ((u = ''KiB'' \<and> v = x / 1024) \<or>
             (u = ''MiB'' \<and> v = x / 1024 ^ 2) \<or>
             (u = ''GiB'' \<and> v = x / 1024 ^ 3) \<or>
             (u = ''TiB'' \<and> v = x / 1024 ^ 4))"
  proof cases
    case 1
    with s lo show ?thesis
      by (intro exI [of _ "x / 1024"] exI [of _ "''KiB''"]) simp
  next
    case 2
    with s show ?thesis
      by (intro exI [of _ "x / 1024 ^ 2"] exI [of _ "''MiB''"]) simp
  next
    case 3
    with s show ?thesis
      by (intro exI [of _ "x / 1024 ^ 3"] exI [of _ "''GiB''"]) simp
  next
    case 4
    with s hi show ?thesis
      by (intro exI [of _ "x / 1024 ^ 4"] exI [of _ "''TiB''"]) simp
  qed
  then show ?thesis unfolding x_def by blast
qed

theorem human_size_unit_boundaries_witness:
  "human_size 1048575 = Inr ''1024.0 KiB'' \<and> (1048575::int) < 2 ^ 50 \<and>
   (\<exists>v u. ''1024.0 KiB'' = format_1f v @ '' '' @ u \<and> 1 \<le> v \<and> v < 1024 \<and>
      ((u = ''KiB'' \<and> v = of_int 1048575 / 1024) \<or>
       (u = ''MiB'' \<and> v = of_int 1048575 / 1024 ^ 2) \<or>
       (u = ''GiB'' \<and> v = of_int 1048575 / 1024 ^ 3) \<or>
       (u = ''TiB'' \<and> v = of_int 1048575 / 1024 ^ 4)))"
proof -
  have h: "human_size 1048575 = Inr ''1024.0 KiB''"
    by (simp add: human_size_def int_to_float_small eval_fmt)
  have b: "(1048575::int) < 2 ^ 50" by simp
  have "''1024.0 KiB'' \<noteq> ''1 byte''" by simp
  moreover have "\<not> (1048575::int) < 1024" by simp
  ultimately show ?thesis
    using human_size_unit_boundaries [OF h b] h b by blast
qed

text \<open>
  C7. The claim holds of no input: no byte count is rendered with PiB. The loop
  returns on its pass for TiB whatever the value is (\<^verbatim>\<open>or unit == "TiB"\<close>), so the
  statement after the loop, \<^verbatim>\<open>return f"{num_bytes:.1f} PiB"  # fallback\<close>, is never
  reached; 1024 TiB are displayed as "1024.0 TiB".
\<close>

theorem human_size_never_PiB:
  "human_size (2 ^ 50) = Inr ''1024.0 TiB'' \<and> \<not> (\<exists>n b. human_size n = Inr (b @ '' PiB''))"
proof
  show "human_size (2 ^ 50) = Inr ''1024.0 TiB''"
    by (simp add: human_size_def int_to_float_small eval_fmt)
  show "\<not> (\<exists>n b. human_size n = Inr (b @ '' PiB''))"
  proof
    assume "\<exists>n b. human_size n = Inr (b @ '' PiB'')"
    then obtain n b where h: "human_size n = Inr (b @ '' PiB'')" by blast
    from human_size_units [OF h] obtain c u where
      eq: "b @ '' PiB'' = c @ u" and
      u: "u \<in> {''1 byte'', '' bytes'', '' KiB'', '' MiB'', '' GiB'', '' TiB''}"
      by blast
    from eq have "rev (b @ '' PiB'') = rev (c @ u)" by simp
    with u show False by auto
  qed
qed

text \<open>
  What the code does from 1 TiB on: every byte count of at least \<open>2 ^ 40\<close> that converts
  to a float is rendered with TiB, the running value being the float divided by
  \<open>1024 ^ 4\<close>, however large.
\<close>

lemma human_size_TiB_unbounded:
  assumes "2 ^ 40 \<le> n" and "int_to_float n = Inr x"
  shows "human_size n = Inr (format_1f (x / 1024 ^ 4) @ '' TiB'')"
proof -
  have n0: "0 \<le> n" and n1: "n \<noteq> 1" and n2: "\<not> n < 1024"
    using assms(1) by simp_all
  have "of_int (2 ^ 40) \<le> x"
    using assms(2) n0 assms(1) by (rule int_to_float_ge) simp
  then have "\<not> x < 1024 ^ 4" by simp
  then have "\<not> x < 1024 ^ 3" and "\<not> x < 1024 ^ 2" by simp_all
  with \<open>\<not> x < 1024 ^ 4\<close> show ?thesis
    unfolding human_size_cases [of n] using n1 n2 assms(2) by simp
qed

section \<open>The tree builder\<close>

subsection \<open>The scan of one directory\<close>

lemma stat_entries_lookup:
  "stat_entries fs es m q = (if q \<in> set es \<and> stat fs q \<noteq> None then stat fs q else m q)"
  by (induction es arbitrary: m) (auto split: option.splits)

lemma insort_key_cong_set:
  assumes "f x = g x" and "\<forall>y \<in> set ys. f y = g y"
  shows "insort_key f x ys = insort_key g x ys"
  using assms by (induction ys) simp_all

lemma sort_key_cong_set:
  assumes "\<forall>x \<in> set xs. f x = g x"
  shows "sort_key f xs = sort_key g xs"
  using assms
proof (induction xs)
  case Nil
  then show ?case by simp
next
  case (Cons x xs)
  then have eq: "sort_key f xs = sort_key g xs" by simp
  have "insort_key f x (sort_key g xs) = insort_key g x (sort_key g xs)"
    using Cons.prems by (intro insort_key_cong_set) simp_all
  with eq show ?case by simp
qed

lemma sort_reverse_cong_set:
  assumes "\<forall>x \<in> set xs. f x = g x"
  shows "sort_reverse f xs = sort_reverse g xs"
  unfolding sort_reverse_def using assms by (intro arg_cong [where f = rev] sort_key_cong_set) simp

lemma set_sort_reverse [simp]: "set (sort_reverse f xs) = set xs"
  by (simp add: sort_reverse_def)

lemma sort_reverse_descending: "sorted (rev (map f (sort_reverse f xs)))"
  by (simp add: sort_reverse_def rev_map [symmetric])

lemma sort_reverse_stable:
  "filter (\<lambda>x. f x = k) (sort_reverse f xs) = filter (\<lambda>x. f x = k) xs"
  by (simp add: sort_reverse_def rev_filter [symmetric] sort_key_stable)

lemma build_entries:
  "sort_reverse (\<lambda>q. st_mtime (the (stat_entries fs (list_dir fs p) Map.empty q)))
     (filter (\<lambda>q. stat_entries fs (list_dir fs p) Map.empty q \<noteq> None) (list_dir fs p)) =
   sort_reverse (entry_mtime fs) (stat_ok_entries fs p)"
proof -
  have f: "filter (\<lambda>q. stat_entries fs (list_dir fs p) Map.empty q \<noteq> None) (list_dir fs p) =
        stat_ok_entries fs p"
    unfolding stat_ok_entries_def by (rule filter_cong) (simp_all add: stat_entries_lookup)
  have "\<forall>q \<in> set (stat_ok_entries fs p).
          st_mtime (the (stat_entries fs (list_dir fs p) Map.empty q)) = entry_mtime fs q"
    by (simp add: stat_ok_entries_def stat_entries_lookup entry_mtime_def)
  then show ?thesis unfolding f by (rule sort_reverse_cong_set)
qed

lemma build_Suc:
  "build fs (Suc k) p =
     (case stat fs p of
        None \<Rightarrow> Some (init_node p False 0 0 0 None)
      | Some st \<Rightarrow>
          if st_isdir st then
            (case build_all (build fs k) (sort_reverse (entry_mtime fs) (stat_ok_entries fs p)) of
               None \<Rightarrow> None
             | Some chs \<Rightarrow>
                 Some (init_node p True (sum_list (map node_size chs))
                         (st_ctime st) (st_mtime st) (Some chs)))
          else Some (init_node p False (st_size st) (st_ctime st) (st_mtime st) None))"
  unfolding build.simps Let_def build_entries is_dir_path_def
  by (simp split: option.split)

lemma build_0: "build fs 0 p = None"
  by simp

declare build.simps [simp del]

lemma build_path: "build fs k p = Some t \<Longrightarrow> path t = p"
  by (cases k) (auto simp add: build_0 build_Suc init_node_def split: option.splits if_splits)

lemma build_mtime:
  "build fs k p = Some t \<Longrightarrow> stat fs p = Some st \<Longrightarrow> mtime t = st_mtime st"
  by (cases k) (auto simp add: build_0 build_Suc init_node_def split: option.splits if_splits)


lemma nodes_cases: "d \<in> set (nodes t) \<Longrightarrow> d = t \<or> (\<exists>ch \<in> set (children t). d \<in> set (nodes ch))"
  by (cases t) auto

lemma build_all_member:
  "build_all b ps = Some chs \<Longrightarrow> ch \<in> set chs \<Longrightarrow> \<exists>q \<in> set ps. b q = Some ch"
proof (induction ps arbitrary: chs)
  case Nil
  then show ?case by simp
next
  case (Cons q ps)
  then show ?case by (auto split: option.splits)
qed

lemma build_all_map:
  assumes "build_all b ps = Some chs" and "\<And>q ch. q \<in> set ps \<Longrightarrow> b q = Some ch \<Longrightarrow> f ch = g q"
  shows "map f chs = map g ps"
  using assms
proof (induction ps arbitrary: chs)
  case Nil
  then show ?case by simp
next
  case (Cons q ps)
  from Cons.prems(1) obtain ch rest where
    q: "b q = Some ch" and r: "build_all b ps = Some rest" and c: "chs = ch # rest"
    by (auto split: option.splits)
  have "map f rest = map g ps"
    using r Cons.prems(2) by (intro Cons.IH) simp_all
  moreover have "f ch = g q" using q Cons.prems(2) by simp
  ultimately show ?case using c by simp
qed

text \<open>What a successful call on a directory has done.\<close>

lemma build_dir:
  assumes "build fs k p = Some t" and "is_dir t"
  shows "\<exists>k' st chs. k = Suc k' \<and> stat fs p = Some st \<and> st_isdir st \<and>
           build_all (build fs k') (sort_reverse (entry_mtime fs) (stat_ok_entries fs p)) = Some chs \<and>
           children t = chs \<and> node_size t = sum_list (map node_size chs)"
proof (cases k)
  case 0
  with assms show ?thesis by (simp add: build_0)
next
  case (Suc k')
  with assms show ?thesis
    by (auto simp add: build_Suc init_node_def split: option.splits if_splits)
qed

lemma build_dir_paths:
  assumes "build fs k p = Some t" and "is_dir t"
  shows "map path (children t) = sort_reverse (entry_mtime fs) (stat_ok_entries fs p)"
proof -
  from build_dir [OF assms] obtain k' chs where
    b: "build_all (build fs k') (sort_reverse (entry_mtime fs) (stat_ok_entries fs p)) = Some chs"
    and c: "children t = chs" by blast
  have "map path chs = map (\<lambda>q. q) (sort_reverse (entry_mtime fs) (stat_ok_entries fs p))"
    using b by (rule build_all_map) (simp add: build_path)
  with c show ?thesis by simp
qed

lemma build_dir_mtimes:
  assumes "build fs k p = Some t" and "is_dir t" and "c \<in> set (children t)"
  shows "stat fs (path c) \<noteq> None \<and> mtime c = entry_mtime fs (path c)"
proof -
  from build_dir [OF assms(1,2)] obtain k' chs where
    b: "build_all (build fs k') (sort_reverse (entry_mtime fs) (stat_ok_entries fs p)) = Some chs"
    and c: "children t = chs" by blast
  from build_all_member [OF b] assms(3) c obtain q where
    q: "q \<in> set (stat_ok_entries fs p)" and bq: "build fs k' q = Some c" by auto
  from q obtain st where st: "stat fs q = Some st" by (auto simp add: stat_ok_entries_def)
  from build_path [OF bq] have pq: "path c = q" .
  from build_mtime [OF bq st] st pq show ?thesis by (simp add: entry_mtime_def)
qed

text \<open>Every node of a built tree is itself a built tree, for its own path.\<close>

lemma build_nodes:
  "build fs k p = Some t \<Longrightarrow> d \<in> set (nodes t) \<Longrightarrow> \<exists>k'. build fs k' (path d) = Some d"
proof (induction k arbitrary: p t)
  case 0
  then show ?case by (simp add: build_0)
next
  case (Suc k)
  from nodes_cases [OF Suc.prems(2)] show ?case
  proof
    assume "d = t"
    with Suc.prems(1) build_path [OF Suc.prems(1)] show ?thesis by blast
  next
    assume "\<exists>ch \<in> set (children t). d \<in> set (nodes ch)"
    then obtain ch where ch: "ch \<in> set (children t)" and d: "d \<in> set (nodes ch)" by blast
    from ch have dir: "is_dir t"
      using Suc.prems(1) by (auto simp add: build_Suc init_node_def split: option.splits if_splits)
    from build_dir [OF Suc.prems(1) dir] obtain chs where
      b: "build_all (build fs k) (sort_reverse (entry_mtime fs) (stat_ok_entries fs p)) = Some chs"
      and c: "children t = chs" by auto
    from build_all_member [OF b] ch c obtain q where "build fs k q = Some ch" by auto
    from Suc.IH [OF this d] show ?thesis .
  qed
qed

lemma build_files_size: "build fs k p = Some t \<Longrightarrow> node_size t = files_size t"
proof (induction k arbitrary: p t)
  case 0
  then show ?case by (simp add: build_0)
next
  case (Suc k)
  show ?case
  proof (cases "is_dir t")
    case False
    then show ?thesis by (cases t) simp
  next
    case True
    from build_dir [OF Suc.prems True] obtain chs where
      b: "build_all (build fs k) (sort_reverse (entry_mtime fs) (stat_ok_entries fs p)) = Some chs"
      and c: "children t = chs" and s: "node_size t = sum_list (map node_size chs)" by auto
    have "\<forall>ch \<in> set chs. node_size ch = files_size ch"
      using build_all_member [OF b] Suc.IH by blast
    then have "map node_size chs = map files_size chs" by simp
    with s c True show ?thesis by (cases t) simp
  qed
qed

lemma with_dir_size_simps:
  "list_dir (with_dir_size z fs) p = list_dir fs p"
  "stat_ok_entries (with_dir_size z fs) p = stat_ok_entries fs p"
  "entry_mtime (with_dir_size z fs) q = entry_mtime fs q"
  by (auto simp add: with_dir_size_def list_dir_def stat_ok_entries_def entry_mtime_def
      split: option.splits intro: filter_cong)

lemma build_with_dir_size: "build (with_dir_size z fs) k p = build fs k p"
proof (induction k arbitrary: p)
  case 0
  show ?case by (simp add: build_0)
next
  case (Suc k)
  have b: "build (with_dir_size z fs) k = build fs k"
    using Suc.IH by (intro ext)
  have e: "(\<lambda>q. entry_mtime (with_dir_size z fs) q) = entry_mtime fs"
    by (intro ext) (simp add: with_dir_size_simps)
  show ?case
    unfolding build_Suc b with_dir_size_simps e
    by (simp add: with_dir_size_def split: option.splits)
qed

subsection \<open>A concrete run\<close>

lemma build_example: "build fs_example (Suc (Suc (Suc 0))) ''/R'' = Some tree_example"
  by (simp add: build_Suc build_0 fs_example_def tree_example_def subdir_example_def
      list_dir_def init_node_def path_name_def sort_reverse_def stat_ok_entries_def
      entry_mtime_def)

lemma subdir_in_tree: "subdir_example \<in> set (nodes tree_example)"
  by (simp add: tree_example_def subdir_example_def)

lemma tree_in_tree: "tree_example \<in> set (nodes tree_example)"
  by (simp add: tree_example_def)

subsection \<open>Properties of the built tree\<close>

text \<open>
  C1. In every tree returned by \<^verbatim>\<open>Node.build\<close>, the size of every directory node is
  the sum of the sizes of its direct children, hence the total size of the files
  below it; the size that the file system reports for a directory is never read:
  reporting another one gives the same tree.
\<close>

theorem build_cumulative_size:
  assumes "build fs depth p = Some t" and "d \<in> set (nodes t)" and "is_dir d"
  shows "node_size d = sum_list (map node_size (children d)) \<and>
         node_size d = files_size d \<and>
         build (with_dir_size z fs) depth p = Some t"
proof -
  from build_nodes [OF assms(1,2)] obtain k where k: "build fs k (path d) = Some d" by blast
  from build_dir [OF k assms(3)] have "node_size d = sum_list (map node_size (children d))"
    by auto
  moreover from k have "node_size d = files_size d" by (rule build_files_size)
  moreover have "build (with_dir_size z fs) depth p = Some t"
    using assms(1) by (simp add: build_with_dir_size)
  ultimately show ?thesis by simp
qed

theorem build_cumulative_size_witness:
  "build fs_example (Suc (Suc (Suc 0))) ''/R'' = Some tree_example \<and>
   subdir_example \<in> set (nodes tree_example) \<and> is_dir subdir_example \<and>
   node_size subdir_example = sum_list (map node_size (children subdir_example)) \<and>
   node_size subdir_example = files_size subdir_example \<and>
   build (with_dir_size 0 fs_example) (Suc (Suc (Suc 0))) ''/R'' = Some tree_example"
proof -
  have d: "is_dir subdir_example" by (simp add: subdir_example_def)
  from build_cumulative_size [OF build_example subdir_in_tree d, of 0]
    build_example subdir_in_tree d
  show ?thesis by simp
qed

text \<open>
  C2. In every directory node produced by \<^verbatim>\<open>Node.build\<close> the children are ordered by
  non-increasing modification time, the time being the one that the parent's
  \<^verbatim>\<open>stat()\<close> of the entry gave, and children with equal modification times keep the
  order of the listing. (With fewer than two children this holds trivially, so the
  theorem does not ask for two.)
\<close>

theorem build_children_sorted:
  assumes "build fs depth p = Some t" and "d \<in> set (nodes t)" and "is_dir d"
  shows "sorted_wrt (\<lambda>a b. mtime b \<le> mtime a) (children d) \<and>
         (\<forall>c \<in> set (children d). \<exists>st. stat fs (path c) = Some st \<and> mtime c = st_mtime st) \<and>
         (\<forall>m. map path (filter (\<lambda>c. mtime c = m) (children d)) =
              filter (\<lambda>q. entry_mtime fs q = m) (stat_ok_entries fs (path d)))"
proof -
  let ?E = "sort_reverse (entry_mtime fs) (stat_ok_entries fs (path d))"
  from build_nodes [OF assms(1,2)] obtain k where k: "build fs k (path d) = Some d" by blast
  have paths: "map path (children d) = ?E"
    using k assms(3) by (rule build_dir_paths)
  have mt: "\<forall>c \<in> set (children d). stat fs (path c) \<noteq> None \<and> mtime c = entry_mtime fs (path c)"
    using build_dir_mtimes [OF k assms(3)] by blast
  then have "map mtime (children d) = map (entry_mtime fs) (map path (children d))"
    by simp
  then have mts: "map mtime (children d) = map (entry_mtime fs) ?E"
    by (simp only: paths)
  have "sorted (rev (map mtime (children d)))"
    unfolding mts by (rule sort_reverse_descending)
  then have 1: "sorted_wrt (\<lambda>a b. mtime b \<le> mtime a) (children d)"
    by (simp add: sorted_wrt_rev sorted_wrt_map rev_map [symmetric] del: rev_map)
  have 2: "\<forall>c \<in> set (children d). \<exists>st. stat fs (path c) = Some st \<and> mtime c = st_mtime st"
    using mt by (auto simp add: entry_mtime_def)
  have 3: "map path (filter (\<lambda>c. mtime c = m) (children d)) =
           filter (\<lambda>q. entry_mtime fs q = m) (stat_ok_entries fs (path d))" for m
  proof -
    have "filter (\<lambda>c. mtime c = m) (children d) =
          filter (\<lambda>c. entry_mtime fs (path c) = m) (children d)"
      using mt by (intro filter_cong) simp_all
    then have "map path (filter (\<lambda>c. mtime c = m) (children d)) =
          filter (\<lambda>q. entry_mtime fs q = m) (map path (children d))"
      by (simp add: filter_map comp_def)
    also have "\<dots> = filter (\<lambda>q. entry_mtime fs q = m) (stat_ok_entries fs (path d))"
      unfolding paths by (rule sort_reverse_stable)
    finally show ?thesis .
  qed
  from 1 2 3 show ?thesis by blast
qed

theorem build_children_sorted_witness:
  "build fs_example (Suc (Suc (Suc 0))) ''/R'' = Some tree_example \<and>
   tree_example \<in> set (nodes tree_example) \<and> is_dir tree_example \<and>
   map path (children tree_example) = [''/R/B'', ''/R/a.txt'', ''/R/c.txt''] \<and>
   map mtime (children tree_example) = [20, 10, 10] \<and>
   sorted_wrt (\<lambda>a b. mtime b \<le> mtime a) (children tree_example) \<and>
   map path (filter (\<lambda>c. mtime c = 10) (children tree_example)) =
     filter (\<lambda>q. entry_mtime fs_example q = 10) (stat_ok_entries fs_example (path tree_example))"
proof -
  have d: "is_dir tree_example" by (simp add: tree_example_def)
  have p: "map path (children tree_example) = [''/R/B'', ''/R/a.txt'', ''/R/c.txt'']"
    by (simp add: tree_example_def subdir_example_def)
  have m: "map mtime (children tree_example) = [20, 10, 10]"
    by (simp add: tree_example_def subdir_example_def)
  from build_children_sorted [OF build_example tree_in_tree d] build_example tree_in_tree d p m
  show ?thesis by blast
qed

text \<open>
  C3. For a path whose \<^verbatim>\<open>stat()\<close> fails, \<^verbatim>\<open>Node.build\<close> returns (whatever recursion
  depth is left to it, one call being enough) a ghost leaf: not a directory, size 0,
  both timestamps 0, no children.
\<close>

theorem build_ghost:
  assumes "stat fs p = None"
  shows "build fs (Suc depth) p =
           Some (Node p (if path_name p \<noteq> [] then path_name p else p) False 0 0 0 [])"
  using assms by (simp add: build_Suc init_node_def)

theorem build_ghost_witness:
  "stat fs_example ''/R/dead'' = None \<and>
   build fs_example (Suc 0) ''/R/dead'' = Some (Node ''/R/dead'' ''dead'' False 0 0 0 [])"
proof -
  have h: "stat fs_example ''/R/dead'' = None" by (simp add: fs_example_def)
  from build_ghost [OF h, of 0] h show ?thesis by (simp add: path_name_def)
qed

text \<open>
  C4. In every directory built by \<^verbatim>\<open>Node.build\<close>, a listed entry whose \<^verbatim>\<open>stat()\<close> fails
  is absent from the children: the children are built from exactly the entries that
  could be stat'ed, each child stands for a path whose \<^verbatim>\<open>stat()\<close> succeeds, so no child,
  ghost or other, stands for the failed entry, and the directory's size is the sum
  over children none of which is that entry.
\<close>

theorem build_drops_failed_entries:
  assumes "build fs depth p = Some t" and "d \<in> set (nodes t)" and "is_dir d"
    and "q \<in> set (list_dir fs (path d))" and "stat fs q = None"
  shows "q \<notin> set (map path (children d)) \<and>
         map path (children d) = sort_reverse (entry_mtime fs) (stat_ok_entries fs (path d)) \<and>
         (\<forall>c \<in> set (children d). stat fs (path c) \<noteq> None) \<and>
         node_size d = sum_list (map node_size (filter (\<lambda>c. path c \<noteq> q) (children d)))"
proof -
  from build_nodes [OF assms(1,2)] obtain k where k: "build fs k (path d) = Some d" by blast
  have paths: "map path (children d) = sort_reverse (entry_mtime fs) (stat_ok_entries fs (path d))"
    using k assms(3) by (rule build_dir_paths)
  have "q \<notin> set (stat_ok_entries fs (path d))"
    using assms(5) by (simp add: stat_ok_entries_def)
  then have absent: "q \<notin> set (map path (children d))"
    unfolding paths by simp
  then have "filter (\<lambda>c. path c \<noteq> q) (children d) = children d"
    by (auto intro: filter_True)
  moreover from build_dir [OF k assms(3)]
  have "node_size d = sum_list (map node_size (children d))" by auto
  moreover have "\<forall>c \<in> set (children d). stat fs (path c) \<noteq> None"
    using build_dir_mtimes [OF k assms(3)] by blast
  ultimately show ?thesis using absent paths by simp
qed

theorem build_drops_failed_entries_witness:
  "build fs_example (Suc (Suc (Suc 0))) ''/R'' = Some tree_example \<and>
   tree_example \<in> set (nodes tree_example) \<and> is_dir tree_example \<and>
   ''/R/dead'' \<in> set (list_dir fs_example (path tree_example)) \<and>
   stat fs_example ''/R/dead'' = None \<and>
   ''/R/dead'' \<notin> set (map path (children tree_example)) \<and>
   node_size tree_example =
     sum_list (map node_size (filter (\<lambda>c. path c \<noteq> ''/R/dead'') (children tree_example)))"
proof -
  have d: "is_dir tree_example" by (simp add: tree_example_def)
  have l: "''/R/dead'' \<in> set (list_dir fs_example (path tree_example))"
    by (simp add: tree_example_def fs_example_def list_dir_def)
  have h: "stat fs_example ''/R/dead'' = None" by (simp add: fs_example_def)
  from build_drops_failed_entries [OF build_example tree_in_tree d l h]
    build_example tree_in_tree d l h
  show ?thesis by blast
qed

section \<open>The renderer\<close>

subsection \<open>Escaping\<close>

lemma replace_char_Nil [simp]: "replace_char c new [] = []"
  by (simp add: replace_char_def)

lemma replace_char_Cons [simp]:
  "replace_char c new (x # s) = (if x = c then new else [x]) @ replace_char c new s"
  by (simp add: replace_char_def)

lemma replace_char_append [simp]:
  "replace_char c new (s @ t) = replace_char c new s @ replace_char c new t"
  by (simp add: replace_char_def)

lemma html_escape_chars: "html_escape s = concat (map escape_char s)"
  by (induction s) (simp_all add: html_escape_def escape_char_def)






lemma html_escape_keeps:
  assumes "c \<in> set s" and "c \<noteq> CHR ''&''" and "c \<noteq> CHR ''<''" and "c \<noteq> CHR ''>''"
  shows "c \<in> set (html_escape s)"
proof -
  from assms have "c \<in> set (escape_char c)" by (simp add: escape_char_def)
  with assms(1) show ?thesis by (auto simp add: html_escape_chars)
qed

lemma join_fragments_Inr:
  "join_fragments xs = Inr body \<Longrightarrow> \<exists>frags. xs = map Inr frags \<and> body = concat frags"
proof (induction xs arbitrary: body)
  case Nil
  then show ?case by simp
next
  case (Cons x xs)
  then obtain s where x: "x = Inr s" by (cases x) simp_all
  with Cons.prems obtain t where t: "join_fragments xs = Inr t" and b: "body = s @ t"
    by (auto split: sum.splits)
  from Cons.IH [OF t] obtain frags where "xs = map Inr frags" and "t = concat frags" by blast
  with x b have "x # xs = map Inr (s # frags) \<and> body = concat (s # frags)" by simp
  then show ?case by (rule exI)
qed

lemma to_html_leaf:
  assumes "to_html ts n indent = Inr out" and "\<not> is_dir n"
  shows "\<exists>size_h modified. human_size (node_size n) = Inr size_h \<and> ts (mtime n) = Inr modified \<and>
           out = leaf_of (pad_of indent) (html_escape (name n)) size_h modified"
  using assms by (cases n) (auto simp add: Let_def split: sum.splits)

lemma to_html_dir:
  assumes "to_html ts n indent = Inr out" and "is_dir n"
  shows "\<exists>size_h modified frags.
           human_size (node_size n) = Inr size_h \<and> ts (mtime n) = Inr modified \<and>
           map (\<lambda>child. to_html ts child (indent + 2)) (children n) = map Inr frags \<and>
           out = header_of (pad_of indent) (html_escape (name n)) size_h modified @
                 concat frags @ footer_of (pad_of indent)"
proof (cases n)
  case (Node p nm isdir sz ct mt chs)
  with assms obtain created modified size_h body where
    "ts ct = Inr created" and m: "ts mt = Inr modified" and h: "human_size sz = Inr size_h" and
    j: "join_fragments (map (\<lambda>child. to_html ts child (indent + 2)) chs) = Inr body" and
    o: "out = header_of (pad_of indent) (html_escape nm) size_h modified @ body @
              footer_of (pad_of indent)"
    by (auto simp add: Let_def split: sum.splits)
  from join_fragments_Inr [OF j] obtain frags where
    "map (\<lambda>child. to_html ts child (indent + 2)) chs = map Inr frags" and "body = concat frags"
    by blast
  with Node m h o show ?thesis by auto
qed

lemma to_html_contains_name:
  assumes "to_html ts n indent = Inr out"
  shows "set (html_escape (name n)) \<subseteq> set out"
proof (cases "is_dir n")
  case True
  from to_html_dir [OF assms True] show ?thesis by (auto simp add: header_of_def)
next
  case False
  from to_html_leaf [OF assms False] show ?thesis by (auto simp add: leaf_of_def)
qed

subsection \<open>Concrete runs\<close>

lemma human_size_500: "human_size 500 = Inr ''500 bytes''"
  by (simp add: human_size_def eval_fmt)

lemma ts_example_10: "ts_example 10 = Inr ''T10''"
  by (simp add: ts_example_def eval_fmt)

lemma ts_example_5: "ts_example 5 = Inr ''T5''"
  by (simp add: ts_example_def eval_fmt)

lemma ts_example_1: "ts_example 1 = Inr ''T1''"
  by (simp add: ts_example_def eval_fmt)

lemma file_example_html:
  "to_html ts_example file_example i =
     Inr (leaf_of (pad_of i) ''a&lt;b&amp;c.txt'' ''500 bytes'' ''T10'')"
  by (simp add: file_example_def human_size_500 ts_example_10 ts_example_1 html_escape_def)

lemma dir_example_html:
  "to_html ts_example dir_example 0 =
     Inr (header_of [] ''R'' ''500 bytes'' ''T5'' @
          leaf_of ''    '' ''a&lt;b&amp;c.txt'' ''500 bytes'' ''T10'' @ footer_of [])"
  by (simp add: dir_example_def file_example_html human_size_500 ts_example_5 ts_example_1
      html_escape_def pad_of_def eval_nat_numeral)

lemma quoted_example_html:
  "to_html ts_example quoted_example 0 =
     Inr (leaf_of [] (''it'' @ [CHR 0x27] @ ''s'') ''500 bytes'' ''T10'')"
  by (simp add: quoted_example_def human_size_500 ts_example_10 ts_example_1 html_escape_def
      pad_of_def)

subsection \<open>Properties of the rendered fragment\<close>



text \<open>
  C9, as the claim states it, fails: the children are not rendered at depth \<open>d + 1\<close>.
  For a directory rendered at 0, the line of its child is the one rendered at 2, with
  four spaces in front, not the one rendered at 1.
\<close>

theorem to_html_child_indent:
  "to_html ts_example dir_example 0 =
     Inr (header_of [] ''R'' ''500 bytes'' ''T5'' @
          leaf_of ''    '' ''a&lt;b&amp;c.txt'' ''500 bytes'' ''T10'' @ footer_of []) \<and>
   to_html ts_example file_example (0 + 1) =
     Inr (leaf_of ''  '' ''a&lt;b&amp;c.txt'' ''500 bytes'' ''T10'') \<and>
   to_html ts_example dir_example 0 \<noteq>
     Inr (header_of [] ''R'' ''500 bytes'' ''T5'' @
          leaf_of ''  '' ''a&lt;b&amp;c.txt'' ''500 bytes'' ''T10'' @ footer_of [])"
  by (simp add: dir_example_html file_example_html pad_of_def header_of_def leaf_of_def)

text \<open>
  C9, amended. For a directory node rendered with indent \<open>d\<close> the fragment is the group
  header, opened by \<^verbatim>\<open><details open>\<close>, then the fragment of each child rendered with
  indent \<open>d + 2\<close>, in the order of the children, then the group footer.
\<close>

theorem to_html_directory:
  assumes "to_html ts n indent = Inr out" and "is_dir n"
  shows "\<exists>size_h modified frags.
           human_size (node_size n) = Inr size_h \<and> ts (mtime n) = Inr modified \<and>
           map (\<lambda>child. to_html ts child (indent + 2)) (children n) = map Inr frags \<and>
           out = header_of (pad_of indent) (html_escape (name n)) size_h modified @
                 concat frags @ footer_of (pad_of indent) \<and>
           header_of (pad_of indent) (html_escape (name n)) size_h modified =
             pad_of indent @ ''<details open>'' @ nl @
             pad_of indent @ ''  <summary>'' @ folder_glyph @ '' <strong>'' @
               html_escape (name n) @ ''/</strong>'' @
               '' ('' @ size_h @ '', modified '' @ modified @ '')</summary>'' @ nl @
             pad_of indent @ ''  <ul>'' @ nl \<and>
           footer_of (pad_of indent) =
             pad_of indent @ ''  </ul>'' @ nl @ pad_of indent @ ''</details>'' @ nl"
  using to_html_dir [OF assms] unfolding header_of_def footer_of_def by blast

theorem to_html_directory_witness:
  "to_html ts_example dir_example 0 =
     Inr (header_of [] ''R'' ''500 bytes'' ''T5'' @
          leaf_of ''    '' ''a&lt;b&amp;c.txt'' ''500 bytes'' ''T10'' @ footer_of []) \<and>
   is_dir dir_example \<and>
   (\<exists>frags. map (\<lambda>child. to_html ts_example child (0 + 2)) (children dir_example) = map Inr frags \<and>
      header_of [] ''R'' ''500 bytes'' ''T5'' @
        leaf_of ''    '' ''a&lt;b&amp;c.txt'' ''500 bytes'' ''T10'' @ footer_of [] =
      header_of (pad_of 0) (html_escape (name dir_example)) ''500 bytes'' ''T5'' @
        concat frags @ footer_of (pad_of 0))"
proof -
  have d: "is_dir dir_example" by (simp add: dir_example_def)
  have s: "human_size (node_size dir_example) = Inr ''500 bytes''"
    by (simp add: dir_example_def human_size_500)
  have m: "ts_example (mtime dir_example) = Inr ''T5''"
    by (simp add: dir_example_def ts_example_5)
  from to_html_directory [OF dir_example_html d] s m dir_example_html d
  show ?thesis by auto
qed

text \<open>
  C10. A double or single quote in the display name stands verbatim in the rendered
  fragment: the escaping rewrites \<open>&\<close>, \<open><\<close> and \<open>>\<close> only, character by character, and
  leaves every other character as it is.
\<close>

theorem to_html_keeps_quotes:
  assumes "to_html ts n indent = Inr out"
    and "q = CHR 0x22 \<or> q = CHR 0x27"
    and "q \<in> set (name n)"
  shows "q \<in> set out \<and>
         html_escape (name n) =
           concat (map (\<lambda>c. if c = CHR ''&'' then ''&amp;'' else if c = CHR ''<'' then ''&lt;''
                            else if c = CHR ''>'' then ''&gt;'' else [c]) (name n))"
proof
  from assms(2) have "q \<noteq> CHR ''&''" and "q \<noteq> CHR ''<''" and "q \<noteq> CHR ''>''" by auto
  with assms(3) have "q \<in> set (html_escape (name n))" by (rule html_escape_keeps)
  with to_html_contains_name [OF assms(1)] show "q \<in> set out" by blast
  show "html_escape (name n) =
           concat (map (\<lambda>c. if c = CHR ''&'' then ''&amp;'' else if c = CHR ''<'' then ''&lt;''
                            else if c = CHR ''>'' then ''&gt;'' else [c]) (name n))"
    using html_escape_chars [of "name n"] unfolding escape_char_def .
qed

theorem to_html_keeps_quotes_witness:
  "to_html ts_example quoted_example 0 =
     Inr (leaf_of [] (''it'' @ [CHR 0x27] @ ''s'') ''500 bytes'' ''T10'') \<and>
   CHR 0x27 \<in> set (name quoted_example) \<and>
   CHR 0x27 \<in> set (leaf_of [] (''it'' @ [CHR 0x27] @ ''s'') ''500 bytes'' ''T10'')"
proof -
  have q: "CHR 0x27 = CHR 0x22 \<or> CHR 0x27 = CHR 0x27" by simp
  have n: "CHR 0x27 \<in> set (name quoted_example)" by (simp add: quoted_example_def)
  from to_html_keeps_quotes [OF quoted_example_html q n] quoted_example_html n
  show ?thesis by blast
qed

end
